theory Spec2Isabelle
  imports Main "HOL-Library.Word"
begin

section \<open>The search box of \<open>src/app/ui/search.tsx\<close>\<close>

text \<open>
  The component \<open>Search\<close> reads the query parameters and the path of the current address,
  and on every change of its input calls a debounced \<open>handleSearch\<close>, which rewrites the
  query parameters and asks the router to replace the address.
\<close>

subsection \<open>Strings\<close>

text \<open>
  A JavaScript string is a list of 16-bit code units. It is falsy exactly when it is empty.
  The text of the input element, the term handed to \<open>handleSearch\<close> and the names and
  values of query parameters are such strings. An address (a path, a query string) is
  ASCII and is kept as a list of bytes; \<open>ascii\<close> reads a literal as a JavaScript string.
\<close>

type_synonym jsstring = "16 word list"

definition ascii :: "string \<Rightarrow> jsstring" where
  "ascii s = map (\<lambda>c. of_nat (of_char c)) s"

text \<open>
  Code units from \<open>D800\<close> to \<open>DBFF\<close> are leading surrogates and those from \<open>DC00\<close> to
  \<open>DFFF\<close> trailing ones. A leading surrogate directly followed by a trailing one stands for
  one code point from \<open>10000\<close> on; any other surrogate is a lone one.

  The methods of \<open>URLSearchParams\<close> take their arguments as \<open>USVString\<close>: on the way in, a
  JavaScript string is converted by replacing every lone surrogate by \<open>FFFD\<close>.
\<close>

definition is_lead :: "16 word \<Rightarrow> bool" where
  "is_lead u = (0xD800 \<le> unat u \<and> unat u \<le> 0xDBFF)"

definition is_trail :: "16 word \<Rightarrow> bool" where
  "is_trail u = (0xDC00 \<le> unat u \<and> unat u \<le> 0xDFFF)"

definition is_surrogate :: "16 word \<Rightarrow> bool" where
  "is_surrogate u = (0xD800 \<le> unat u \<and> unat u \<le> 0xDFFF)"

fun USVString :: "jsstring \<Rightarrow> jsstring" where
  "USVString (u # v # r) =
     (if is_lead u \<and> is_trail v then u # v # USVString r
      else (if is_surrogate u then 0xFFFD else u) # USVString (v # r))"
| "USVString [u] = [if is_surrogate u then 0xFFFD else u]"
| "USVString [] = []"

text \<open>A string is well formed when it has no lone surrogate.\<close>

fun well_formed :: "jsstring \<Rightarrow> bool" where
  "well_formed (u # v # r) =
     (if is_lead u \<and> is_trail v then well_formed r
      else \<not> is_surrogate u \<and> well_formed (v # r))"
| "well_formed [u] = (\<not> is_surrogate u)"
| "well_formed [] = True"

subsection \<open>URLSearchParams\<close>

text \<open>
  A \<open>URLSearchParams\<close> object is a list of name-value pairs, in order, where a name may
  occur more than once. The operations follow the URL Standard, each after the conversion
  of its arguments:
  \<^item> \<open>get(name)\<close> returns the value of the first pair with that name, or null;
  \<^item> \<open>has(name)\<close> tells whether there is a pair with that name, \<open>getAll(name)\<close> returns
    the values of all of them;
  \<^item> \<open>delete(name)\<close> removes every pair with that name;
  \<^item> \<open>set(name, value)\<close> overwrites the value of the first pair with that name and removes
    the others, or appends a new pair when there is none;
  \<^item> \<open>new URLSearchParams(init)\<close> on another such object copies its list.
\<close>

type_synonym QueryState = "(jsstring \<times> jsstring) list"

fun get_first :: "jsstring \<Rightarrow> QueryState \<Rightarrow> jsstring option" where
  "get_first name [] = None"
| "get_first name ((n, v) # l) = (if n = name then Some v else get_first name l)"

definition remove_all :: "jsstring \<Rightarrow> QueryState \<Rightarrow> QueryState" where
  "remove_all name l = filter (\<lambda>p. fst p \<noteq> name) l"

fun set_first :: "jsstring \<Rightarrow> jsstring \<Rightarrow> QueryState \<Rightarrow> QueryState" where
  "set_first name val [] = [(name, val)]"
| "set_first name val ((n, v) # l) =
     (if n = name then (name, val) # remove_all name l else (n, v) # set_first name val l)"

fun has_name :: "jsstring \<Rightarrow> QueryState \<Rightarrow> bool" where
  "has_name name [] = False"
| "has_name name ((n, v) # l) = (n = name \<or> has_name name l)"

fun get_every :: "jsstring \<Rightarrow> QueryState \<Rightarrow> jsstring list" where
  "get_every name [] = []"
| "get_every name ((n, v) # l) = (if n = name then v # get_every name l else get_every name l)"

definition usp_get :: "jsstring \<Rightarrow> QueryState \<Rightarrow> jsstring option" where
  "usp_get name l = get_first (USVString name) l"

definition usp_has :: "jsstring \<Rightarrow> QueryState \<Rightarrow> bool" where
  "usp_has name l = has_name (USVString name) l"

definition usp_getAll :: "jsstring \<Rightarrow> QueryState \<Rightarrow> jsstring list" where
  "usp_getAll name l = get_every (USVString name) l"

definition usp_delete :: "jsstring \<Rightarrow> QueryState \<Rightarrow> QueryState" where
  "usp_delete name l = remove_all (USVString name) l"

definition usp_set :: "jsstring \<Rightarrow> jsstring \<Rightarrow> QueryState \<Rightarrow> QueryState" where
  "usp_set name val l = set_first (USVString name) (USVString val) l"

definition usp_copy :: "QueryState \<Rightarrow> QueryState" where
  "usp_copy init = init"

subsection \<open>The body of \<open>handleSearch\<close>: the new query parameters\<close>

text \<open>
  Lines 25 to 31 of the source: copy the current parameters, set \<open>page\<close> to \<open>1\<close>, then set
  \<open>query\<close> to the term when the term is truthy and delete \<open>query\<close> otherwise.
\<close>

definition commit :: "jsstring \<Rightarrow> QueryState \<Rightarrow> QueryState" where
  "commit term searchParams =
     (let params = usp_copy searchParams;
          params = usp_set (ascii ''page'') (ascii ''1'') params
      in if term \<noteq> [] then usp_set (ascii ''query'') term params
         else usp_delete (ascii ''query'') params)"

subsection \<open>Serializing and parsing the query string\<close>

text \<open>
  \<open>params.toString()\<close> runs the \<open>application/x-www-form-urlencoded\<close> serializer of the URL
  Standard. A name or value is encoded in UTF-8, code point by code point (a lone
  surrogate, which a stored string never has, would go out as \<open>FFFD\<close>). Then a byte is kept
  when it is an ASCII letter or digit or one of \<open>* - . _\<close>, a space becomes \<open>+\<close>, and every
  other byte becomes \<open>%\<close> and two upper-case hexadecimal digits. A pair is written
  \<open>name=value\<close>, and pairs are joined by \<open>&\<close>.
\<close>

fun code_points :: "jsstring \<Rightarrow> nat list" where
  "code_points (u # v # r) =
     (if is_lead u \<and> is_trail v
      then (0x10000 + (unat u - 0xD800) * 0x400 + (unat v - 0xDC00)) # code_points r
      else (if is_surrogate u then 0xFFFD else unat u) # code_points (v # r))"
| "code_points [u] = [if is_surrogate u then 0xFFFD else unat u]"
| "code_points [] = []"

definition utf8 :: "nat \<Rightarrow> string" where
  "utf8 cp =
     (if cp < 0x80 then [char_of cp]
      else if cp < 0x800 then
        [char_of (0xC0 + cp div 0x40), char_of (0x80 + cp mod 0x40)]
      else if cp < 0x10000 then
        [char_of (0xE0 + cp div 0x1000), char_of (0x80 + cp div 0x40 mod 0x40),
         char_of (0x80 + cp mod 0x40)]
      else
        [char_of (0xF0 + cp div 0x40000), char_of (0x80 + cp div 0x1000 mod 0x40),
         char_of (0x80 + cp div 0x40 mod 0x40), char_of (0x80 + cp mod 0x40)])"

definition utf8_encode :: "jsstring \<Rightarrow> string" where
  "utf8_encode s = concat (map utf8 (code_points s))"

definition urlencoded_keep :: "char \<Rightarrow> bool" where
  "urlencoded_keep c =
     (c \<in> set ''ABCDEFGHIJKLMNOPQRSTUVWXYZabcdefghijklmnopqrstuvwxyz0123456789*-._'')"

definition hex_digit :: "nat \<Rightarrow> char" where
  "hex_digit n = ''0123456789ABCDEF'' ! (n mod 16)"

definition percent_encode :: "char \<Rightarrow> string" where
  "percent_encode c =
     [CHR ''%'', hex_digit (of_char c div 16), hex_digit (of_char c mod 16)]"

definition urlencode_byte :: "char \<Rightarrow> string" where
  "urlencode_byte c =
     (if c = CHR '' '' then ''+''
      else if urlencoded_keep c then [c]
      else percent_encode c)"

definition urlencode_bytes :: "string \<Rightarrow> string" where
  "urlencode_bytes bs = concat (map urlencode_byte bs)"

definition urlencode :: "jsstring \<Rightarrow> string" where
  "urlencode s = urlencode_bytes (utf8_encode s)"

definition usp_toString :: "QueryState \<Rightarrow> string" where
  "usp_toString l =
     foldl (\<lambda>output (n, v).
              (if output \<noteq> [] then output @ ''&'' else output)
                @ urlencode n @ ''='' @ urlencode v) [] l"

text \<open>
  The hook \<open>useSearchParams\<close> hands the component the parameters of the current address,
  which are the result of the \<open>application/x-www-form-urlencoded\<close> parser on its query
  string: split at \<open>&\<close>, skip empty pieces, split each piece at its first \<open>=\<close>, turn \<open>+\<close>
  into a space, percent-decode, and decode the bytes as UTF-8.

  The UTF-8 decoder is the one of the Encoding Standard: a byte that cannot start or
  continue a sequence gives \<open>FFFD\<close>, and a byte that cannot continue one is read again as
  the start of the next; overlong forms, surrogates and code points past \<open>10FFFF\<close> are
  excluded by the bounds on the second byte. A code point from \<open>10000\<close> on comes out as a
  surrogate pair.
\<close>

fun split_on :: "char \<Rightarrow> string \<Rightarrow> string list" where
  "split_on c [] = [[]]"
| "split_on c (x # xs) =
     (if x = c then [] # split_on c xs
      else (case split_on c xs of
              [] \<Rightarrow> [[x]]
            | piece # pieces \<Rightarrow> (x # piece) # pieces))"

definition hex_value :: "char \<Rightarrow> nat option" where
  "hex_value c =
     (let n = (of_char c :: nat) in
      if 48 \<le> n \<and> n \<le> 57 then Some (n - 48)
      else if 65 \<le> n \<and> n \<le> 70 then Some (n - 55)
      else if 97 \<le> n \<and> n \<le> 102 then Some (n - 87)
      else None)"

fun percent_decode :: "string \<Rightarrow> string" where
  "percent_decode (c # h # l # rest) =
     (if c = CHR ''%'' then
        (case (hex_value h, hex_value l) of
           (Some a, Some b) \<Rightarrow> char_of (a * 16 + b) # percent_decode rest
         | _ \<Rightarrow> c # percent_decode (h # l # rest))
      else c # percent_decode (h # l # rest))"
| "percent_decode (c # rest) = c # percent_decode rest"
| "percent_decode [] = []"

definition plus_to_space :: "string \<Rightarrow> string" where
  "plus_to_space s = map (\<lambda>c. if c = CHR ''+'' then CHR '' '' else c) s"

definition code_units :: "nat \<Rightarrow> jsstring" where
  "code_units cp =
     (if cp < 0x10000 then [of_nat cp]
      else [of_nat (0xD800 + (cp - 0x10000) div 0x400),
            of_nat (0xDC00 + (cp - 0x10000) mod 0x400)])"

definition continues :: "nat \<Rightarrow> nat \<Rightarrow> char \<Rightarrow> bool" where
  "continues lower upper c = (lower \<le> (of_char c :: nat) \<and> (of_char c :: nat) \<le> upper)"

definition low6 :: "char \<Rightarrow> nat" where
  "low6 c = of_char c - 0x80"

fun utf8_decode :: "string \<Rightarrow> jsstring" where
  "utf8_decode [] = []"
| "utf8_decode (c # r) =
     (let b = (of_char c :: nat) in
      if b < 0x80 then of_nat b # utf8_decode r
      else if 0xC2 \<le> b \<and> b \<le> 0xDF then
        (case r of
           [] \<Rightarrow> [0xFFFD]
         | c1 # r1 \<Rightarrow>
             if continues 0x80 0xBF c1
             then code_units ((b - 0xC0) * 0x40 + low6 c1) @ utf8_decode r1
             else 0xFFFD # utf8_decode r)
      else if 0xE0 \<le> b \<and> b \<le> 0xEF then
        (case r of
           [] \<Rightarrow> [0xFFFD]
         | c1 # r1 \<Rightarrow>
             if continues (if b = 0xE0 then 0xA0 else 0x80) (if b = 0xED then 0x9F else 0xBF) c1
             then (case r1 of
                     [] \<Rightarrow> [0xFFFD]
                   | c2 # r2 \<Rightarrow>
                       if continues 0x80 0xBF c2
                       then code_units ((b - 0xE0) * 0x1000 + low6 c1 * 0x40 + low6 c2)
                              @ utf8_decode r2
                       else 0xFFFD # utf8_decode r1)
             else 0xFFFD # utf8_decode r)
      else if 0xF0 \<le> b \<and> b \<le> 0xF4 then
        (case r of
           [] \<Rightarrow> [0xFFFD]
         | c1 # r1 \<Rightarrow>
             if continues (if b = 0xF0 then 0x90 else 0x80) (if b = 0xF4 then 0x8F else 0xBF) c1
             then (case r1 of
                     [] \<Rightarrow> [0xFFFD]
                   | c2 # r2 \<Rightarrow>
                       if continues 0x80 0xBF c2
                       then (case r2 of
                               [] \<Rightarrow> [0xFFFD]
                             | c3 # r3 \<Rightarrow>
                                 if continues 0x80 0xBF c3
                                 then code_units ((b - 0xF0) * 0x40000 + low6 c1 * 0x1000
                                                    + low6 c2 * 0x40 + low6 c3)
                                        @ utf8_decode r3
                                 else 0xFFFD # utf8_decode r2)
                       else 0xFFFD # utf8_decode r1)
             else 0xFFFD # utf8_decode r)
      else 0xFFFD # utf8_decode r)"

definition urldecode :: "string \<Rightarrow> jsstring" where
  "urldecode s = utf8_decode (percent_decode (plus_to_space s))"

definition parse_pair :: "string \<Rightarrow> jsstring \<times> jsstring" where
  "parse_pair bytes =
     (urldecode (takeWhile (\<lambda>c. c \<noteq> CHR ''='') bytes),
      urldecode (drop 1 (dropWhile (\<lambda>c. c \<noteq> CHR ''='') bytes)))"

definition usp_parse :: "string \<Rightarrow> QueryState" where
  "usp_parse input = map parse_pair (filter (\<lambda>bytes. bytes \<noteq> []) (split_on CHR ''&'' input))"

subsection \<open>The whole of \<open>handleSearch\<close>\<close>

text \<open>
  What one render of the component closes over: the values its hooks returned and its
  property \<open>placeholder\<close>.
\<close>

record render =
  searchParams :: QueryState
  pathname :: string
  placeholder :: jsstring

text \<open>
  The router of \<open>next/navigation\<close> offers \<open>push\<close> and \<open>replace\<close>, each on an address. What the
  callback does to the outside is a list of effects in program order: it writes a line to
  the console (line 22) and calls the router (line 39).
\<close>

datatype router_call = Push string | Replace string

datatype effect = ConsoleLog jsstring | Router router_call

definition handleSearch :: "render \<Rightarrow> jsstring \<Rightarrow> effect list" where
  "handleSearch r term =
     [ConsoleLog (ascii ''Searching... '' @ term),
      Router (Replace (pathname r @ ''?'' @ usp_toString (commit term (searchParams r))))]"

fun router_calls :: "effect list \<Rightarrow> router_call list" where
  "router_calls [] = []"
| "router_calls (Router c # es) = c # router_calls es"
| "router_calls (ConsoleLog s # es) = router_calls es"

subsection \<open>What \<open>Search\<close> renders\<close>

text \<open>
  The input element of lines 46 to 53 gets a placeholder, an \<open>onChange\<close> handler that passes
  the input's text to the debounced \<open>handleSearch\<close>, and a \<open>defaultValue\<close>, which is
  \<open>searchParams.get("query")?.toString()\<close>: the first \<open>query\<close> value, or undefined. It gets
  no \<open>value\<close> property. This is so on every render, with the parameters of that render.
\<close>

record input_props =
  ip_placeholder :: jsstring
  ip_defaultValue :: "jsstring option"
  ip_value :: "jsstring option"

definition Search :: "render \<Rightarrow> input_props" where
  "Search r =
     \<lparr> ip_placeholder = placeholder r,
       ip_defaultValue = usp_get (ascii ''query'') (searchParams r),
       ip_value = None \<rparr>"

section \<open>The component in its environment\<close>

subsection \<open>The address and the hooks\<close>

text \<open>
  The environment holds the address of the current history entry (path, then \<open>?\<close> and the
  query string, then \<open>#\<close> and a fragment, the last two optional) and the entries behind it.
  \<open>usePathname\<close> returns the path of the current address and \<open>useSearchParams\<close> the
  parameters parsed from its query string.
\<close>

definition href_pathname :: "string \<Rightarrow> string" where
  "href_pathname a = takeWhile (\<lambda>c. c \<noteq> CHR ''?'' \<and> c \<noteq> CHR ''#'') a"

definition href_search :: "string \<Rightarrow> string" where
  "href_search a =
     (case dropWhile (\<lambda>c. c \<noteq> CHR ''?'' \<and> c \<noteq> CHR ''#'') a of
        [] \<Rightarrow> []
      | c # rest \<Rightarrow> if c = CHR ''?'' then takeWhile (\<lambda>c. c \<noteq> CHR ''#'') rest else [])"

record world =
  current :: string
  past :: "string list"
  prop_placeholder :: jsstring
  displayed :: jsstring
  touched :: bool
  timer :: "(nat \<times> jsstring) option"
  console :: "jsstring list"
  fired :: "(nat \<times> jsstring) list"

definition hooks :: "world \<Rightarrow> render" where
  "hooks w =
     \<lparr> searchParams = usp_parse (href_search (current w)),
       pathname = href_pathname (current w),
       placeholder = prop_placeholder w \<rparr>"

subsection \<open>The router\<close>

text \<open>
  Modelled from the spec: the router of \<open>next/navigation\<close>, which is not part of the
  sources. Section 6 of the specification says that \<open>replace\<close> updates the address without
  pushing a new history entry; \<open>push\<close> is the navigation that adds one.
\<close>

fun navigate :: "router_call \<Rightarrow> world \<Rightarrow> world" where
  "navigate (Replace a) w = w\<lparr>current := a\<rparr>"
| "navigate (Push a) w = w\<lparr>past := current w # past w, current := a\<rparr>"

fun perform :: "world \<Rightarrow> effect \<Rightarrow> world" where
  "perform w (ConsoleLog s) = w\<lparr>console := console w @ [s]\<rparr>"
| "perform w (Router c) = navigate c w"

definition run_effects :: "effect list \<Rightarrow> world \<Rightarrow> world" where
  "run_effects es w = foldl perform w es"

subsection \<open>The input element\<close>

text \<open>
  How React and the browser show an input element. An input with a \<open>value\<close> property shows
  that value. An input without one shows its default value (the empty string when there
  is none) for as long as the user has not changed its text: React writes the default
  value of every render to the element, and the element shows it until its text has been
  edited. Once the user has changed the text, the element keeps its own text, whatever
  default value later renders pass. On mount nothing has been typed yet.
\<close>

definition initial_text :: "input_props \<Rightarrow> jsstring" where
  "initial_text props =
     (case ip_value props of
        Some v \<Rightarrow> v
      | None \<Rightarrow> (case ip_defaultValue props of Some d \<Rightarrow> d | None \<Rightarrow> []))"

definition rerender :: "world \<Rightarrow> world" where
  "rerender w =
     (case ip_value (Search (hooks w)) of
        Some v \<Rightarrow> w\<lparr>displayed := v\<rparr>
      | None \<Rightarrow> if touched w then w else w\<lparr>displayed := initial_text (Search (hooks w))\<rparr>)"

definition mount :: "string \<Rightarrow> jsstring \<Rightarrow> world" where
  "mount address ph =
     (let w = \<lparr> current = address, past = [], prop_placeholder = ph, displayed = [],
                touched = False, timer = None, console = [], fired = [] \<rparr>
      in w\<lparr>displayed := initial_text (Search (hooks w))\<rparr>)"

subsection \<open>The debounce timer and the events\<close>

text \<open>
  Modelled from the spec: \<open>useDebouncedCallback\<close> of the package \<open>use-debounce\<close>, which is
  not part of the sources. Sections 4.1, 5 and 9 of the specification: there is at most one
  pending timer; an input event cancels it and starts a new one that is due one quiescence
  window later and carries the latest text; when a timer comes due the callback runs with
  that text and the timer is idle again. The window is the \<open>300\<close> of line 40. Time is
  counted in milliseconds.

  An event is a change of the input's text by the user, or a navigation made by something
  else (a link, another component). Before an event at time \<open>t\<close> is handled, a timer due
  at or before \<open>t\<close> fires. The callback reads the hooks of the latest render. After the
  callback has replaced the address, and after a navigation, the component renders again.
\<close>

definition wait :: nat where
  "wait = 300"

definition fire :: "nat \<Rightarrow> jsstring \<Rightarrow> world \<Rightarrow> world" where
  "fire t term w =
     rerender (run_effects (handleSearch (hooks w) term)
                 (w\<lparr>timer := None, fired := fired w @ [(t, term)]\<rparr>))"

definition advance :: "nat \<Rightarrow> world \<Rightarrow> world" where
  "advance t w =
     (case timer w of
        None \<Rightarrow> w
      | Some (deadline, term) \<Rightarrow> if deadline \<le> t then fire deadline term w else w)"

datatype event = Change nat jsstring | External nat router_call

fun step :: "world \<Rightarrow> event \<Rightarrow> world" where
  "step w (Change t text) =
     (advance t w)\<lparr>displayed := text, touched := True, timer := Some (t + wait, text)\<rparr>"
| "step w (External t c) = rerender (navigate c (advance t w))"

definition run :: "event list \<Rightarrow> world \<Rightarrow> world" where
  "run es w = foldl step w es"

text \<open>
  A burst of typing: input events in time order, each less than one quiescence window
  after the one before.
\<close>

fun rapid :: "(nat \<times> jsstring) list \<Rightarrow> bool" where
  "rapid [] = True"
| "rapid [e] = True"
| "rapid ((t1, s1) # (t2, s2) # es) = (t1 \<le> t2 \<and> t2 < t1 + wait \<and> rapid ((t2, s2) # es))"

definition typing :: "(nat \<times> jsstring) list \<Rightarrow> event list" where
  "typing ks = map (\<lambda>(t, text). Change t text) ks"



section \<open>Strings and their conversion\<close>

lemma unat_of_char: "unat (of_nat (of_char c) :: 16 word) = of_char c"
proof -
  have "(of_char c :: nat) < 256" by simp
  also have "(256 :: nat) < 2 ^ LENGTH(16)" by simp
  finally show ?thesis by (simp only: unat_of_nat mod_less)
qed

lemma ascii_Nil: "ascii [] = []"
  by (simp add: ascii_def)

lemma ascii_Cons: "ascii (c # s) = of_nat (of_char c) # ascii s"
  by (simp add: ascii_def)

lemma ascii_append: "ascii (a @ b) = ascii a @ ascii b"
  by (simp add: ascii_def)

lemma ascii_unit_inject: "(of_nat (of_char a) :: 16 word) = of_nat (of_char b) \<longleftrightarrow> a = b"
proof
  assume "(of_nat (of_char a) :: 16 word) = of_nat (of_char b)"
  then have "unat (of_nat (of_char a) :: 16 word) = unat (of_nat (of_char b) :: 16 word)"
    by simp
  then have "(of_char a :: nat) = of_char b"
    by (simp only: unat_of_char)
  then show "a = b" by simp
qed simp

lemma ascii_inject: "ascii a = ascii b \<longleftrightarrow> a = b"
proof (induction a arbitrary: b)
  case Nil
  then show ?case by (cases b) (simp_all add: ascii_Nil ascii_Cons)
next
  case (Cons x a)
  then show ?case
    by (cases b) (simp_all add: ascii_Nil ascii_Cons ascii_unit_inject)
qed

lemma ascii_not_surrogate: "\<not> is_surrogate (of_nat (of_char c))"
proof -
  have "(of_char c :: nat) < 256" by simp
  then have "\<not> 0xD800 \<le> (of_char c :: nat)" by linarith
  then show ?thesis by (simp only: is_surrogate_def unat_of_char) simp
qed

lemma lead_surrogate: "is_lead u \<Longrightarrow> is_surrogate u"
  by (simp add: is_lead_def is_surrogate_def)

lemma trail_surrogate: "is_trail u \<Longrightarrow> is_surrogate u"
  by (simp add: is_trail_def is_surrogate_def)

lemma surrogate_cases: "is_surrogate u \<longleftrightarrow> is_lead u \<or> is_trail u"
  by (auto simp: is_lead_def is_trail_def is_surrogate_def)

lemma lead_not_trail: "is_lead u \<Longrightarrow> \<not> is_trail u"
  by (simp add: is_lead_def is_trail_def)

lemma replacement_not_surrogate: "\<not> is_surrogate 0xFFFD"
  by (simp add: is_surrogate_def)

lemma USVString_plain: "\<not> is_surrogate u \<Longrightarrow> USVString (u # s) = u # USVString s"
  by (cases s) (auto dest: lead_surrogate)

lemma USVString_pair:
  "is_lead u \<Longrightarrow> is_trail v \<Longrightarrow> USVString (u # v # s) = u # v # USVString s"
  by simp

lemma USVString_ascii: "USVString (ascii s) = ascii s"
  by (induction s) (simp_all add: ascii_Nil ascii_Cons USVString_plain ascii_not_surrogate)

lemma USVString_idem: "USVString (USVString s) = USVString s"
proof (induction s rule: USVString.induct)
  case (1 u v r)
  show ?case
  proof (cases "is_lead u \<and> is_trail v")
    case True
    with 1 show ?thesis by simp
  next
    case False
    have "\<not> is_surrogate (if is_surrogate u then 0xFFFD else u)"
      by (simp add: replacement_not_surrogate)
    then have "USVString ((if is_surrogate u then 0xFFFD else u) # USVString (v # r))
        = (if is_surrogate u then 0xFFFD else u) # USVString (USVString (v # r))"
      by (rule USVString_plain)
    with False 1 show ?thesis
      by simp
  qed
next
  case (2 u)
  show ?case by (simp add: replacement_not_surrogate)
next
  case 3
  show ?case by simp
qed

lemma USVString_empty: "USVString s = [] \<longleftrightarrow> s = []"
  by (cases s rule: USVString.cases) auto

text \<open>A string without surrogates and without FFFD is the conversion of itself only.\<close>

lemma USVString_clean:
  "USVString k = x \<Longrightarrow> \<forall>u \<in> set x. \<not> is_surrogate u \<and> u \<noteq> 0xFFFD \<Longrightarrow> k = x"
proof (induction k arbitrary: x rule: USVString.induct)
  case (1 u v r)
  show ?case
  proof (cases "is_lead u \<and> is_trail v")
    case True
    with 1(3,4) show ?thesis by (auto dest: lead_surrogate)
  next
    case False
    with 1(3) obtain y where x: "x = (if is_surrogate u then 0xFFFD else u) # y"
      and y: "USVString (v # r) = y" by auto
    from 1(4) x have u: "\<not> is_surrogate u" by (auto split: if_splits)
    from 1(4) x have "\<forall>u \<in> set y. \<not> is_surrogate u \<and> u \<noteq> 0xFFFD" by simp
    with 1(2) False y have "v # r = y" by blast
    with x u show ?thesis by simp
  qed
next
  case (2 u)
  then show ?case by (auto split: if_splits)
next
  case 3
  then show ?case by simp
qed

lemma ascii_clean: "\<forall>u \<in> set (ascii s). \<not> is_surrogate u \<and> u \<noteq> 0xFFFD"
proof -
  have "(of_nat (of_char c) :: 16 word) \<noteq> 0xFFFD" for c
  proof
    assume "(of_nat (of_char c) :: 16 word) = 0xFFFD"
    then have "unat (of_nat (of_char c) :: 16 word) = unat (0xFFFD :: 16 word)" by simp
    then have "(of_char c :: nat) = 0xFFFD" by (simp only: unat_of_char) simp
    moreover have "(of_char c :: nat) < 256" by simp
    ultimately show False by simp
  qed
  then show ?thesis
    by (auto simp: ascii_def ascii_not_surrogate)
qed

lemma USVString_eq_ascii: "USVString k = ascii s \<longleftrightarrow> k = ascii s"
  using USVString_clean [OF _ ascii_clean] USVString_ascii by metis

section \<open>Lists of pairs\<close>

lemma remove_all_Nil: "remove_all name [] = []"
  by (simp add: remove_all_def)

lemma remove_all_Cons:
  "remove_all name (p # l) = (if fst p = name then remove_all name l else p # remove_all name l)"
  by (simp add: remove_all_def)

lemmas remove_all_simps = remove_all_Nil remove_all_Cons

lemma get_first_delete: "get_first k (remove_all name l) = (if k = name then None else get_first k l)"
  by (induction l) (auto simp: remove_all_simps)

lemma get_first_set: "get_first k (set_first name val l) = (if k = name then Some val else get_first k l)"
  by (induction l) (auto simp: get_first_delete)

lemma has_name_delete: "has_name k (remove_all name l) = (k \<noteq> name \<and> has_name k l)"
  by (induction l) (auto simp: remove_all_simps)

lemma has_name_set: "has_name k (set_first name val l) = (k = name \<or> has_name k l)"
  by (induction l) (auto simp: has_name_delete split: if_splits)

lemma get_every_delete:
  "get_every k (remove_all name l) = (if k = name then [] else get_every k l)"
  by (induction l) (auto simp: remove_all_simps)

lemma get_every_set:
  "get_every k (set_first name val l) = (if k = name then [val] else get_every k l)"
  by (induction l) (auto simp: get_every_delete)

lemma has_name_get: "has_name k l = (get_first k l \<noteq> None)"
  by (induction l) auto

lemma remove_all_twice: "remove_all name (remove_all name l) = remove_all name l"
  by (simp add: remove_all_def)

lemma remove_all_absent: "\<not> has_name name l \<Longrightarrow> remove_all name l = l"
  by (induction l) (auto simp: remove_all_simps)

lemma remove_all_set_same: "remove_all name (set_first name val l) = remove_all name l"
  by (induction l) (auto simp: remove_all_simps remove_all_twice)

lemma remove_all_commute: "remove_all a (remove_all b l) = remove_all b (remove_all a l)"
  by (induction l) (auto simp: remove_all_simps)

lemma remove_all_set_other:
  "k \<noteq> name \<Longrightarrow> remove_all k (set_first name val l) = set_first name val (remove_all k l)"
  by (induction l) (auto simp: remove_all_simps remove_all_commute)

lemma set_first_twice: "set_first name val (set_first name val' l) = set_first name val l"
  by (induction l) (auto simp: remove_all_simps remove_all_twice remove_all_set_same)

lemma set_first_present_other:
  "k \<noteq> name \<Longrightarrow> has_name k l \<Longrightarrow> has_name name l \<Longrightarrow>
   set_first k w (set_first name val l) = set_first name val (set_first k w l)"
  by (induction l) (auto simp: remove_all_set_other has_name_delete remove_all_absent remove_all_simps)

lemma frame_delete:
  "name \<in> S \<Longrightarrow> filter (\<lambda>p. fst p \<notin> S) (remove_all name l) = filter (\<lambda>p. fst p \<notin> S) l"
  by (induction l) (auto simp: remove_all_simps)

lemma frame_set:
  "name \<in> S \<Longrightarrow> filter (\<lambda>p. fst p \<notin> S) (set_first name val l) = filter (\<lambda>p. fst p \<notin> S) l"
  by (induction l) (auto simp: frame_delete)

lemma remove_all_none: "get_every name l = [] \<Longrightarrow> remove_all name l = l"
  by (induction l) (auto simp: remove_all_simps split: if_splits)

lemma set_first_same: "get_every name l = [val] \<Longrightarrow> set_first name val l = l"
  by (induction l) (auto simp: remove_all_none split: if_splits)

section \<open>Decoding UTF-8 inverts encoding\<close>

lemma of_char_of_small: "n < 256 \<Longrightarrow> (of_char (char_of n) :: nat) = n"
  by simp

lemma decode_ascii_byte:
  "(of_char c :: nat) < 0x80 \<Longrightarrow> utf8_decode (c # r) = of_nat (of_char c) # utf8_decode r"
  by (simp add: Let_def)

lemma decode_two:
  assumes b: "0xC2 \<le> (of_char c :: nat)" "(of_char c :: nat) \<le> 0xDF"
    and c1: "continues 0x80 0xBF c1"
  shows "utf8_decode (c # c1 # r)
       = code_units ((of_char c - 0xC0) * 0x40 + low6 c1) @ utf8_decode r"
  using assms by (simp add: Let_def)

lemma decode_three:
  assumes b: "0xE0 \<le> (of_char c :: nat)" "(of_char c :: nat) \<le> 0xEF"
    and c1: "continues (if (of_char c :: nat) = 0xE0 then 0xA0 else 0x80)
                       (if (of_char c :: nat) = 0xED then 0x9F else 0xBF) c1"
    and c2: "continues 0x80 0xBF c2"
  shows "utf8_decode (c # c1 # c2 # r)
       = code_units ((of_char c - 0xE0) * 0x1000 + low6 c1 * 0x40 + low6 c2) @ utf8_decode r"
  using assms by (simp add: Let_def)

lemma decode_four:
  assumes b: "0xF0 \<le> (of_char c :: nat)" "(of_char c :: nat) \<le> 0xF4"
    and c1: "continues (if (of_char c :: nat) = 0xF0 then 0x90 else 0x80)
                       (if (of_char c :: nat) = 0xF4 then 0x8F else 0xBF) c1"
    and c2: "continues 0x80 0xBF c2"
    and c3: "continues 0x80 0xBF c3"
  shows "utf8_decode (c # c1 # c2 # c3 # r)
       = code_units ((of_char c - 0xF0) * 0x40000 + low6 c1 * 0x1000 + low6 c2 * 0x40 + low6 c3)
           @ utf8_decode r"
  using assms by (simp add: Let_def)


lemma continuation_byte: "(m::nat) < 0x40 \<Longrightarrow> continues 0x80 0xBF (char_of (0x80 + m))"
  by (simp add: continues_def)

lemma low6_byte: "(m::nat) < 0x40 \<Longrightarrow> low6 (char_of (0x80 + m)) = m"
  by (simp add: low6_def)

lemma split_two: "(cp::nat) = cp div 0x40 * 0x40 + cp mod 0x40"
  by simp

lemma split_three:
  "(cp::nat) = cp div 0x1000 * 0x1000 + cp div 0x40 mod 0x40 * 0x40 + cp mod 0x40"
proof -
  have "cp div 0x1000 = cp div 0x40 div 0x40"
    by (simp add: div_mult2_eq)
  moreover have "cp div 0x40 = cp div 0x40 div 0x40 * 0x40 + cp div 0x40 mod 0x40"
    by simp
  moreover have "cp = cp div 0x40 * 0x40 + cp mod 0x40"
    by simp
  ultimately show ?thesis by linarith
qed

lemma split_four:
  "(cp::nat) = cp div 0x40000 * 0x40000 + cp div 0x1000 mod 0x40 * 0x1000
             + cp div 0x40 mod 0x40 * 0x40 + cp mod 0x40"
proof -
  have "cp div 0x40000 = cp div 0x1000 div 0x40"
    by (simp add: div_mult2_eq)
  moreover have "cp div 0x1000 = cp div 0x1000 div 0x40 * 0x40 + cp div 0x1000 mod 0x40"
    by simp
  ultimately have "cp div 0x1000 * 0x1000
      = cp div 0x40000 * 0x40000 + cp div 0x1000 mod 0x40 * 0x1000"
    by linarith
  with split_three [of cp] show ?thesis by linarith
qed

lemma decode_utf8_one:
  assumes "cp < 0x80"
  shows "utf8_decode (utf8 cp @ r) = code_units cp @ utf8_decode r"
proof -
  from assms have b: "(of_char (char_of cp) :: nat) = cp" by simp
  from assms have u: "utf8 cp = [char_of cp]" by (simp add: utf8_def)
  from assms have "(of_char (char_of cp) :: nat) < 0x80" by (simp only: b)
  then have "utf8_decode (char_of cp # r) = of_nat (of_char (char_of cp)) # utf8_decode r"
    by (rule decode_ascii_byte)
  with assms show ?thesis
    by (simp only: u b code_units_def) simp
qed

lemma decode_utf8_two:
  assumes lo: "0x80 \<le> cp" and hi: "cp < 0x800"
  shows "utf8_decode (utf8 cp @ r) = code_units cp @ utf8_decode r"
proof -
  define q where "q = cp div 0x40"
  define m where "m = cp mod 0x40"
  have cp: "cp = q * 0x40 + m"
    unfolding q_def m_def by (rule split_two)
  have m: "m < 0x40"
    by (simp add: m_def)
  from lo hi cp m have q: "2 \<le> q" "q < 0x20" by linarith+
  let ?c0 = "char_of (0xC0 + q)"
  let ?c1 = "char_of (0x80 + m)"
  from lo hi have u: "utf8 cp = [?c0, ?c1]"
    by (simp add: utf8_def q_def m_def)
  from q have b0: "(of_char ?c0 :: nat) = 0xC0 + q" by simp
  have "utf8_decode (?c0 # ?c1 # r)
       = code_units ((of_char ?c0 - 0xC0) * 0x40 + low6 ?c1) @ utf8_decode r"
  proof (rule decode_two)
    show "0xC2 \<le> (of_char ?c0 :: nat)" using q unfolding b0 by linarith
    show "(of_char ?c0 :: nat) \<le> 0xDF" using q unfolding b0 by linarith
    show "continues 0x80 0xBF ?c1" using m by (rule continuation_byte)
  qed
  moreover have "(of_char ?c0 - 0xC0) * 0x40 + low6 ?c1 = cp"
    by (simp only: b0 low6_byte [OF m] cp)
  ultimately show ?thesis
    by (simp only: u append.simps)
qed

lemma decode_utf8_three:
  assumes lo: "0x800 \<le> cp" and hi: "cp < 0x10000"
    and ns: "\<not> (0xD800 \<le> cp \<and> cp \<le> 0xDFFF)"
  shows "utf8_decode (utf8 cp @ r) = code_units cp @ utf8_decode r"
proof -
  define q where "q = cp div 0x1000"
  define m1 where "m1 = cp div 0x40 mod 0x40"
  define m2 where "m2 = cp mod 0x40"
  have m1: "m1 < 0x40" and m2: "m2 < 0x40"
    by (simp_all add: m1_def m2_def)
  have cp: "cp = q * 0x1000 + m1 * 0x40 + m2"
    unfolding q_def m1_def m2_def by (rule split_three)
  from hi cp m1 m2 have q: "q < 0x10" by linarith
  let ?c0 = "char_of (0xE0 + q)"
  let ?c1 = "char_of (0x80 + m1)"
  let ?c2 = "char_of (0x80 + m2)"
  from lo hi have u: "utf8 cp = [?c0, ?c1, ?c2]"
    by (simp add: utf8_def q_def m1_def m2_def)
  from q have b0: "(of_char ?c0 :: nat) = 0xE0 + q" by simp
  from m1 have b1: "(of_char ?c1 :: nat) = 0x80 + m1" by simp
  have low: "q = 0 \<Longrightarrow> 0x20 \<le> m1"
    using lo cp m2 by linarith
  have high: "m1 < 0x20" if "q = 0xD"
  proof -
    from that cp m1 m2 have "cp \<le> 0xDFFF" by linarith
    with ns have "cp < 0xD800" by linarith
    with that cp show ?thesis by linarith
  qed
  have c1: "continues (if (of_char ?c0 :: nat) = 0xE0 then 0xA0 else 0x80)
                      (if (of_char ?c0 :: nat) = 0xED then 0x9F else 0xBF) ?c1"
    unfolding continues_def b0 b1 using low high m1 by auto
  have "utf8_decode (?c0 # ?c1 # ?c2 # r)
       = code_units ((of_char ?c0 - 0xE0) * 0x1000 + low6 ?c1 * 0x40 + low6 ?c2) @ utf8_decode r"
  proof (rule decode_three)
    show "0xE0 \<le> (of_char ?c0 :: nat)" unfolding b0 by linarith
    show "(of_char ?c0 :: nat) \<le> 0xEF" using q unfolding b0 by linarith
    show "continues 0x80 0xBF ?c2" using m2 by (rule continuation_byte)
  qed (rule c1)
  moreover have "(of_char ?c0 - 0xE0) * 0x1000 + low6 ?c1 * 0x40 + low6 ?c2 = cp"
    by (simp only: b0 low6_byte [OF m1] low6_byte [OF m2] cp)
  ultimately show ?thesis
    by (simp only: u append.simps)
qed

lemma decode_utf8_four:
  assumes lo: "0x10000 \<le> cp" and hi: "cp < 0x110000"
  shows "utf8_decode (utf8 cp @ r) = code_units cp @ utf8_decode r"
proof -
  define q where "q = cp div 0x40000"
  define m1 where "m1 = cp div 0x1000 mod 0x40"
  define m2 where "m2 = cp div 0x40 mod 0x40"
  define m3 where "m3 = cp mod 0x40"
  have m1: "m1 < 0x40" and m2: "m2 < 0x40" and m3: "m3 < 0x40"
    by (simp_all add: m1_def m2_def m3_def)
  have cp: "cp = q * 0x40000 + m1 * 0x1000 + m2 * 0x40 + m3"
    unfolding q_def m1_def m2_def m3_def by (rule split_four)
  from hi cp m1 m2 m3 have q: "q < 5" by linarith
  let ?c0 = "char_of (0xF0 + q)"
  let ?c1 = "char_of (0x80 + m1)"
  let ?c2 = "char_of (0x80 + m2)"
  let ?c3 = "char_of (0x80 + m3)"
  from lo hi have u: "utf8 cp = [?c0, ?c1, ?c2, ?c3]"
    by (simp add: utf8_def q_def m1_def m2_def m3_def)
  from q have b0: "(of_char ?c0 :: nat) = 0xF0 + q" by simp
  from m1 have b1: "(of_char ?c1 :: nat) = 0x80 + m1" by simp
  have low: "q = 0 \<Longrightarrow> 0x10 \<le> m1"
    using lo cp m2 m3 by linarith
  have high: "q = 4 \<Longrightarrow> m1 < 0x10"
    using hi cp by linarith
  have c1: "continues (if (of_char ?c0 :: nat) = 0xF0 then 0x90 else 0x80)
                      (if (of_char ?c0 :: nat) = 0xF4 then 0x8F else 0xBF) ?c1"
    unfolding continues_def b0 b1 using low high m1 by auto
  have "utf8_decode (?c0 # ?c1 # ?c2 # ?c3 # r)
       = code_units ((of_char ?c0 - 0xF0) * 0x40000 + low6 ?c1 * 0x1000 + low6 ?c2 * 0x40
                       + low6 ?c3) @ utf8_decode r"
  proof (rule decode_four)
    show "0xF0 \<le> (of_char ?c0 :: nat)" unfolding b0 by linarith
    show "(of_char ?c0 :: nat) \<le> 0xF4" using q unfolding b0 by linarith
    show "continues 0x80 0xBF ?c2" using m2 by (rule continuation_byte)
    show "continues 0x80 0xBF ?c3" using m3 by (rule continuation_byte)
  qed (rule c1)
  moreover have "(of_char ?c0 - 0xF0) * 0x40000 + low6 ?c1 * 0x1000 + low6 ?c2 * 0x40
      + low6 ?c3 = cp"
    by (simp only: b0 low6_byte [OF m1] low6_byte [OF m2] low6_byte [OF m3] cp)
  ultimately show ?thesis
    by (simp only: u append.simps)
qed

lemma decode_utf8:
  assumes "cp < 0x110000" and "\<not> (0xD800 \<le> cp \<and> cp \<le> 0xDFFF)"
  shows "utf8_decode (utf8 cp @ r) = code_units cp @ utf8_decode r"
proof -
  consider "cp < 0x80" | "0x80 \<le> cp" "cp < 0x800" | "0x800 \<le> cp" "cp < 0x10000"
    | "0x10000 \<le> cp"
    by linarith
  then show ?thesis
  proof cases
    case 1
    then show ?thesis by (rule decode_utf8_one)
  next
    case 2
    then show ?thesis by (rule decode_utf8_two)
  next
    case 3
    then show ?thesis using assms(2) by (rule decode_utf8_three)
  next
    case 4
    then show ?thesis using assms(1) by (rule decode_utf8_four)
  qed
qed

lemma unat_unit_less: "unat (u :: 16 word) < 0x10000"
  using unsigned_less [of u, where ?'a = nat] by simp

lemma unat_small: "n < 0x10000 \<Longrightarrow> unat (of_nat n :: 16 word) = n"
  by (simp add: unat_of_nat)

lemma code_points_scalar:
  "cp \<in> set (code_points s) \<Longrightarrow> cp < 0x110000 \<and> \<not> (0xD800 \<le> cp \<and> cp \<le> 0xDFFF)"
proof (induction s arbitrary: cp rule: code_points.induct)
  case (1 u v r)
  show ?case
  proof (cases "is_lead u \<and> is_trail v")
    case True
    then have "0xD800 \<le> unat u" "unat u \<le> 0xDBFF" "0xDC00 \<le> unat v" "unat v \<le> 0xDFFF"
      by (simp_all add: is_lead_def is_trail_def)
    then have "0x10000 + (unat u - 0xD800) * 0x400 + (unat v - 0xDC00) < 0x110000"
      and "0x10000 \<le> 0x10000 + (unat u - 0xD800) * 0x400 + (unat v - 0xDC00)"
      by linarith+
    with True 1 show ?thesis by auto
  next
    case False
    have "unat u < 0x110000" using unat_unit_less [of u] by linarith
    with False 1 show ?thesis by (auto simp: is_surrogate_def split: if_splits)
  qed
next
  case (2 u)
  have "unat u < 0x110000" using unat_unit_less [of u] by linarith
  with 2 show ?case by (auto simp: is_surrogate_def split: if_splits)
next
  case 3
  then show ?case by simp
qed

lemma code_units_plain: "code_units (unat u) = [u]"
  using unat_unit_less [of u] by (simp add: code_units_def)

lemma code_units_replacement: "code_units 0xFFFD = [0xFFFD]"
  by (simp add: code_units_def)

lemma code_units_pair:
  assumes "is_lead u" and "is_trail v"
  shows "code_units (0x10000 + (unat u - 0xD800) * 0x400 + (unat v - 0xDC00)) = [u, v]"
proof -
  from assms have u: "0xD800 \<le> unat u" and v: "0xDC00 \<le> unat v" "unat v \<le> 0xDFFF"
    by (simp_all add: is_lead_def is_trail_def)
  define a where "a = unat u - 0xD800"
  define b where "b = unat v - 0xDC00"
  from v have b: "b < 0x400" by (simp add: b_def)
  have "(a * 0x400 + b) div 0x400 = a" using b by simp
  moreover have "(a * 0x400 + b) mod 0x400 = b" using b by simp
  moreover have "0xD800 + a = unat u" using u by (simp add: a_def)
  moreover have "0xDC00 + b = unat v" using v by (simp add: b_def)
  ultimately show ?thesis
    by (simp add: code_units_def a_def [symmetric] b_def [symmetric])
qed

lemma units_code_points: "concat (map code_units (code_points s)) = USVString s"
proof (induction s rule: code_points.induct)
  case (1 u v r)
  then show ?case
    by (cases "is_lead u \<and> is_trail v")
      (auto simp: code_units_pair code_units_plain code_units_replacement)
next
  case (2 u)
  show ?case by (simp add: code_units_plain code_units_replacement)
next
  case 3
  show ?case by simp
qed

lemma decode_code_points:
  "\<forall>cp \<in> set cps. cp < 0x110000 \<and> \<not> (0xD800 \<le> cp \<and> cp \<le> 0xDFFF) \<Longrightarrow>
   utf8_decode (concat (map utf8 cps) @ r) = concat (map code_units cps) @ utf8_decode r"
  by (induction cps) (simp_all add: decode_utf8 del: utf8_decode.simps)

lemma utf8_decode_encode: "utf8_decode (utf8_encode s) = USVString s"
proof -
  have "utf8_decode (concat (map utf8 (code_points s)) @ [])
      = concat (map code_units (code_points s)) @ utf8_decode []"
    using code_points_scalar by (intro decode_code_points) blast
  then show ?thesis
    by (simp add: utf8_encode_def units_code_points)
qed

section \<open>Parsing a serialized query string\<close>

lemma hex_value_digit_all: "\<forall>n \<in> set [0..<16]. hex_value (hex_digit n) = Some n"
  by code_simp

lemma hex_value_digit: "n < 16 \<Longrightarrow> hex_value (hex_digit n) = Some n"
  using hex_value_digit_all by simp

lemma hex_digit_in: "hex_digit n \<in> set ''0123456789ABCDEF''"
  unfolding hex_digit_def by (rule nth_mem) simp

lemma hex_digit_not_plus: "hex_digit n \<noteq> CHR ''+''"
  using hex_digit_in [of n] by auto

lemma percent_decode_plain: "c \<noteq> CHR ''%'' \<Longrightarrow> percent_decode (c # r) = c # percent_decode r"
  by (cases r rule: percent_decode.cases) simp_all

lemma percent_decode_escape:
  "percent_decode (percent_encode c @ r) = c # percent_decode r"
proof -
  have "(of_char c :: nat) < 256" by simp
  then have hi: "(of_char c :: nat) div 16 < 16" by (simp add: div_less_iff_less_mult)
  have lo: "(of_char c :: nat) mod 16 < 16" by simp
  show ?thesis
    by (simp add: percent_encode_def hex_value_digit [OF hi] hex_value_digit [OF lo])
qed

lemma plus_to_space_escape: "plus_to_space (percent_encode c) = percent_encode c"
  by (simp add: plus_to_space_def percent_encode_def hex_digit_not_plus)

lemma keep_cases: "urlencoded_keep c \<Longrightarrow> c \<noteq> CHR ''%'' \<and> c \<noteq> CHR ''+'' \<and> c \<noteq> CHR ''&'' \<and> c \<noteq> CHR ''='' \<and> c \<noteq> CHR ''#''"
  by (auto simp: urlencoded_keep_def)

lemma decode_byte:
  "percent_decode (plus_to_space (urlencode_byte c) @ r) = c # percent_decode r"
proof (cases "c = CHR '' ''")
  case True
  then show ?thesis
    by (simp add: urlencode_byte_def plus_to_space_def percent_decode_plain)
next
  case False
  show ?thesis
  proof (cases "urlencoded_keep c")
    case True
    with False keep_cases [OF True] show ?thesis
      by (simp add: urlencode_byte_def plus_to_space_def percent_decode_plain)
  next
    case no: False
    with False show ?thesis
      by (simp add: urlencode_byte_def plus_to_space_escape percent_decode_escape)
  qed
qed

lemma plus_to_space_Nil: "plus_to_space [] = []"
  by (simp add: plus_to_space_def)

lemma plus_to_space_append: "plus_to_space (a @ b) = plus_to_space a @ plus_to_space b"
  by (simp add: plus_to_space_def)

lemma urlencode_bytes_Nil: "urlencode_bytes [] = []"
  by (simp add: urlencode_bytes_def)

lemma urlencode_bytes_Cons: "urlencode_bytes (c # s) = urlencode_byte c @ urlencode_bytes s"
  by (simp add: urlencode_bytes_def)

lemma decode_encode_append:
  "percent_decode (plus_to_space (urlencode_bytes s) @ r) = s @ percent_decode r"
  by (induction s) (simp_all add: urlencode_bytes_Nil urlencode_bytes_Cons plus_to_space_Nil plus_to_space_append decode_byte)

lemma urldecode_urlencode: "urldecode (urlencode s) = USVString s"
  using decode_encode_append [of "utf8_encode s" "[]"]
  by (simp add: urldecode_def urlencode_def utf8_decode_encode)

lemma urlencode_byte_chars:
  "x \<in> set (urlencode_byte c) \<Longrightarrow> x \<notin> {CHR ''&'', CHR ''='', CHR ''#'', CHR ''?''}"
proof -
  assume x: "x \<in> set (urlencode_byte c)"
  have hex: "hex_digit n \<notin> {CHR ''&'', CHR ''='', CHR ''#'', CHR ''?''}" for n
    using hex_digit_in [of n] by auto
  have keep: "urlencoded_keep c \<Longrightarrow> c \<notin> {CHR ''&'', CHR ''='', CHR ''#'', CHR ''?''}"
    by (auto simp: urlencoded_keep_def)
  from x show ?thesis
    using hex keep
    by (auto simp: urlencode_byte_def percent_encode_def split: if_splits)
qed

lemma urlencode_chars:
  "x \<in> set (urlencode s) \<Longrightarrow> x \<notin> {CHR ''&'', CHR ''='', CHR ''#'', CHR ''?''}"
  unfolding urlencode_def urlencode_bytes_def using urlencode_byte_chars by fastforce

lemma split_on_nonempty: "split_on c s \<noteq> []"
  by (induction s) (auto split: list.splits)

lemma split_on_none: "c \<notin> set p \<Longrightarrow> split_on c p = [p]"
  by (induction p) auto

lemma split_on_append: "c \<notin> set p \<Longrightarrow> split_on c (s @ c # p) = split_on c s @ [p]"
proof (induction s)
  case Nil
  then show ?case by (simp add: split_on_none)
next
  case (Cons x s)
  then show ?case
    using split_on_nonempty [of c s] by (cases "split_on c s") auto
qed

lemma parse_pair_encoded:
  "parse_pair (urlencode n @ CHR ''='' # urlencode v) = (USVString n, USVString v)"
proof -
  have "\<forall>x \<in> set (urlencode n). x \<noteq> CHR ''=''"
    using urlencode_chars by fastforce
  then have "takeWhile (\<lambda>c. c \<noteq> CHR ''='') (urlencode n @ CHR ''='' # urlencode v) = urlencode n"
    and "dropWhile (\<lambda>c. c \<noteq> CHR ''='') (urlencode n @ CHR ''='' # urlencode v) = CHR ''='' # urlencode v"
    by (simp_all add: takeWhile_append2 dropWhile_append2 takeWhile_tail dropWhile_append3)
  then show ?thesis
    by (simp add: parse_pair_def urldecode_urlencode)
qed

lemma usp_toString_Nil: "usp_toString [] = []"
  by (simp add: usp_toString_def)

lemma usp_toString_snoc:
  "usp_toString (l @ [(n, v)]) =
     (if usp_toString l \<noteq> [] then usp_toString l @ ''&'' else usp_toString l)
       @ urlencode n @ ''='' @ urlencode v"
  by (simp add: usp_toString_def)

lemma usp_toString_empty: "usp_toString l = [] \<longleftrightarrow> l = []"
  by (cases l rule: rev_cases) (auto simp: usp_toString_Nil usp_toString_snoc)

lemma usp_toString_chars: "x \<in> set (usp_toString l) \<Longrightarrow> x \<noteq> CHR ''#''"
proof (induction l arbitrary: x rule: rev_induct)
  case Nil
  then show ?case by (simp add: usp_toString_Nil)
next
  case (snoc p l)
  obtain n v where p: "p = (n, v)" by (cases p)
  from snoc show ?case
    using urlencode_chars [of x n] urlencode_chars [of x v]
    by (auto simp: p usp_toString_snoc split: if_splits)
qed

lemma usp_parse_toString:
  "usp_parse (usp_toString l) = map (\<lambda>(n, v). (USVString n, USVString v)) l"
proof (induction l rule: rev_induct)
  case Nil
  then show ?case by (simp add: usp_toString_Nil usp_parse_def)
next
  case (snoc p l)
  obtain n v where p: "p = (n, v)" by (cases p)
  let ?piece = "urlencode n @ CHR ''='' # urlencode v"
  have amp: "CHR ''&'' \<notin> set ?piece"
    using urlencode_chars [of "CHR ''&''" n] urlencode_chars [of "CHR ''&''" v] by auto
  show ?case
  proof (cases "l = []")
    case True
    have "usp_toString ([] @ [(n, v)]) = ?piece"
      by (simp only: usp_toString_snoc usp_toString_Nil) simp
    then have str: "usp_toString [(n, v)] = ?piece"
      by simp
    have "split_on CHR ''&'' ?piece = [?piece]"
      using amp by (rule split_on_none)
    then show ?thesis
      using True by (simp add: str usp_parse_def parse_pair_encoded p)
  next
    case False
    then have str: "usp_toString (l @ [(n, v)]) = usp_toString l @ CHR ''&'' # ?piece"
      by (simp add: usp_toString_snoc usp_toString_empty)
    show ?thesis
      using snoc.IH amp
      by (simp add: str usp_parse_def split_on_append parse_pair_encoded p)
  qed
qed

section \<open>The callback, the timer and the input in the environment\<close>

lemma well_formed_USVString: "well_formed s \<Longrightarrow> USVString s = s"
  by (induction s rule: well_formed.induct) (auto split: if_splits)

lemma USVString_well_formed: "well_formed (USVString s)"
proof (induction s rule: USVString.induct)
  case (1 u v r)
  show ?case
  proof (cases "is_lead u \<and> is_trail v")
    case True
    with 1 show ?thesis by simp
  next
    case False
    let ?x = "if is_surrogate u then 0xFFFD else u"
    have x: "\<not> is_surrogate ?x" by (simp add: replacement_not_surrogate)
    then have "\<not> is_lead ?x" using lead_surrogate by blast
    moreover from False 1 have "well_formed (USVString (v # r))" by simp
    ultimately have "well_formed (?x # USVString (v # r))"
      using x by (cases "USVString (v # r)") simp_all
    moreover from False have "USVString (u # v # r) = ?x # USVString (v # r)"
      by auto
    ultimately show ?thesis by (simp only:)
  qed
next
  case (2 u)
  show ?case by (simp add: replacement_not_surrogate)
next
  case 3
  show ?case by simp
qed

lemma well_formed_ascii: "well_formed (ascii s)"
  using USVString_well_formed [of "ascii s"] by (simp add: USVString_ascii)

lemma get_first_converted:
  "get_first (ascii k) (map (\<lambda>(n, v). (USVString n, USVString v)) l)
     = map_option USVString (get_first (ascii k) l)"
  by (induction l) (auto simp: USVString_eq_ascii)

lemma hooks_rerender: "hooks (rerender w) = hooks w"
  by (simp add: rerender_def hooks_def Search_def)

lemma rerender_touched: "touched w \<Longrightarrow> rerender w = w"
  by (simp add: rerender_def Search_def)

lemma rerender_eq:
  "rerender w = (if touched w then w else w\<lparr>displayed := initial_text (Search (hooks w))\<rparr>)"
  by (simp add: rerender_def Search_def)

lemma fire_eq:
  "fire t term w =
     rerender (w\<lparr>timer := None, fired := fired w @ [(t, term)],
        console := console w @ [ascii ''Searching... '' @ term],
        current := pathname (hooks w) @ ''?'' @ usp_toString (commit term (searchParams (hooks w)))\<rparr>)"
  by (simp add: fire_def run_effects_def handleSearch_def)

lemma fire_fields:
  "current (fire t term w)
     = pathname (hooks w) @ ''?'' @ usp_toString (commit term (searchParams (hooks w)))"
  "past (fire t term w) = past w"
  "timer (fire t term w) = None"
  "fired (fire t term w) = fired w @ [(t, term)]"
  "console (fire t term w) = console w @ [ascii ''Searching... '' @ term]"
  "touched (fire t term w) = touched w"
  "prop_placeholder (fire t term w) = prop_placeholder w"
  by (simp_all add: fire_eq rerender_eq)

lemma href_pathname_replace: "href_pathname (href_pathname a @ CHR ''?'' # q) = href_pathname a"
proof -
  have "\<forall>x \<in> set (href_pathname a). x \<noteq> CHR ''?'' \<and> x \<noteq> CHR ''#''"
    unfolding href_pathname_def by (auto dest: set_takeWhileD)
  then show ?thesis
    by (subst href_pathname_def) (simp add: takeWhile_tail)
qed

lemma href_search_replace:
  "CHR ''#'' \<notin> set q \<Longrightarrow> href_search (href_pathname a @ CHR ''?'' # q) = q"
proof -
  assume q: "CHR ''#'' \<notin> set q"
  have "\<forall>x \<in> set (href_pathname a). x \<noteq> CHR ''?'' \<and> x \<noteq> CHR ''#''"
    unfolding href_pathname_def by (auto dest: set_takeWhileD)
  then have "dropWhile (\<lambda>c. c \<noteq> CHR ''?'' \<and> c \<noteq> CHR ''#'') (href_pathname a @ CHR ''?'' # q)
             = CHR ''?'' # q"
    by (simp add: dropWhile_append3)
  moreover have "takeWhile (\<lambda>c. c \<noteq> CHR ''#'') q = q"
    using q by (auto intro: takeWhile_eq_all_conv [THEN iffD2])
  ultimately show ?thesis
    by (simp add: href_search_def)
qed

lemma hooks_fire:
  "searchParams (hooks (fire t term w))
     = map (\<lambda>(n, v). (USVString n, USVString v)) (commit term (searchParams (hooks w)))"
  "pathname (hooks (fire t term w)) = pathname (hooks w)"
  "placeholder (hooks (fire t term w)) = placeholder (hooks w)"
proof -
  let ?q = "usp_toString (commit term (searchParams (hooks w)))"
  have "CHR ''#'' \<notin> set ?q"
    using usp_toString_chars by blast
  then have "href_search (href_pathname (current w) @ CHR ''?'' # ?q) = ?q"
    by (rule href_search_replace)
  then show "searchParams (hooks (fire t term w))
     = map (\<lambda>(n, v). (USVString n, USVString v)) (commit term (searchParams (hooks w)))"
    by (simp add: hooks_def fire_fields usp_parse_toString)
  show "pathname (hooks (fire t term w)) = pathname (hooks w)"
    by (simp add: hooks_def fire_fields href_pathname_replace)
  show "placeholder (hooks (fire t term w)) = placeholder (hooks w)"
    by (simp add: hooks_def fire_fields)
qed

lemma run_Nil: "run [] w = w"
  by (simp add: run_def)

lemma run_Cons: "run (e # es) w = run es (step w e)"
  by (simp add: run_def)

lemma run_typing:
  "ks \<noteq> [] \<Longrightarrow> rapid ks \<Longrightarrow>
   (case timer w of None \<Rightarrow> True | Some (d, s) \<Rightarrow> fst (hd ks) < d) \<Longrightarrow>
   run (typing ks) w =
     w\<lparr>displayed := snd (last ks), touched := True,
        timer := Some (fst (last ks) + wait, snd (last ks))\<rparr>"
proof (induction ks arbitrary: w rule: rapid.induct)
  case 1
  then show ?case by simp
next
  case (2 e)
  obtain t s where e: "e = (t, s)" by (cases e)
  from 2 have "advance t w = w"
    by (auto simp: e advance_def split: option.splits)
  then show ?case
    by (simp add: e typing_def run_Cons run_Nil)
next
  case (3 t1 s1 t2 s2 es)
  from 3 have adv: "advance t1 w = w"
    by (auto simp: advance_def split: option.splits)
  let ?w = "w\<lparr>displayed := s1, touched := True, timer := Some (t1 + wait, s1)\<rparr>"
  have "run (typing ((t2, s2) # es)) ?w =
        ?w\<lparr>displayed := snd (last ((t2, s2) # es)), touched := True,
            timer := Some (fst (last ((t2, s2) # es)) + wait, snd (last ((t2, s2) # es)))\<rparr>"
    using 3 by (intro "3.IH") simp_all
  then show ?case
    using adv by (simp add: typing_def run_Cons)
qed

lemma settle_typing:
  assumes "ks \<noteq> []" and "rapid ks" and "timer w = None"
  shows "advance T (run (typing ks) w) =
     (if fst (last ks) + wait \<le> T
      then fire (fst (last ks) + wait) (snd (last ks))
             (w\<lparr>displayed := snd (last ks), touched := True,
                timer := Some (fst (last ks) + wait, snd (last ks))\<rparr>)
      else w\<lparr>displayed := snd (last ks), touched := True,
             timer := Some (fst (last ks) + wait, snd (last ks))\<rparr>)"
proof -
  have "run (typing ks) w =
     w\<lparr>displayed := snd (last ks), touched := True,
        timer := Some (fst (last ks) + wait, snd (last ks))\<rparr>"
    using assms by (intro run_typing) simp_all
  then show ?thesis
    by (simp add: advance_def)
qed

lemma hooks_typed: "hooks (w\<lparr>displayed := d, touched := b, timer := x\<rparr>) = hooks w"
  by (simp add: hooks_def)










section \<open>The query parameters after a commit\<close>

lemma commit_eq:
  "commit term qs =
     (if term \<noteq> []
      then set_first (ascii ''query'') (USVString term)
             (set_first (ascii ''page'') (ascii ''1'') qs)
      else remove_all (ascii ''query'') (set_first (ascii ''page'') (ascii ''1'') qs))"
  by (simp add: commit_def usp_copy_def usp_set_def usp_delete_def USVString_ascii)

lemma usp_at_ascii:
  "usp_get (ascii k) l = get_first (ascii k) l"
  "usp_has (ascii k) l = has_name (ascii k) l"
  "usp_getAll (ascii k) l = get_every (ascii k) l"
  by (simp_all add: usp_get_def usp_has_def usp_getAll_def USVString_ascii)

lemma page_not_query: "ascii ''page'' \<noteq> ascii ''query''" "ascii ''query'' \<noteq> ascii ''page''"
  by (simp_all add: ascii_inject)

text \<open>
  Claim C1, as amended. For every term and every prior query state, after the commit
  \<open>query\<close> is the term with every lone surrogate replaced by \<open>FFFD\<close> when the term is not
  empty (and it is the only \<open>query\<close> pair), and there is no \<open>query\<close> pair at all when the
  term is empty; the same holds of the parameters that the next render reads back from the
  replaced address. So for every term without a lone surrogate, \<open>query\<close> is the term itself
  when the term is not empty.
\<close>

theorem commit_query:
  "usp_get (ascii ''query'') (commit term qs)
       = (if term = [] then None else Some (USVString term))
   \<and> usp_getAll (ascii ''query'') (commit term qs)
       = (if term = [] then [] else [USVString term])
   \<and> usp_has (ascii ''query'') (commit term qs) = (term \<noteq> [])
   \<and> usp_get (ascii ''query'') (searchParams (hooks (fire t term w)))
       = (if term = [] then None else Some (USVString term))
   \<and> (well_formed term \<longrightarrow>
        usp_get (ascii ''query'') (commit term qs) = (if term = [] then None else Some term)
      \<and> usp_get (ascii ''query'') (searchParams (hooks (fire t term w)))
          = (if term = [] then None else Some term))"
proof -
  have a: "usp_get (ascii ''query'') (commit term qs)
       = (if term = [] then None else Some (USVString term))" for qs
    by (simp add: usp_at_ascii commit_eq get_first_set get_first_delete)
  have b: "usp_getAll (ascii ''query'') (commit term qs)
       = (if term = [] then [] else [USVString term])"
    by (simp add: usp_at_ascii commit_eq get_every_set get_every_delete)
  have c: "usp_has (ascii ''query'') (commit term qs) = (term \<noteq> [])"
    by (simp add: usp_at_ascii commit_eq has_name_set has_name_delete)
  have "usp_get (ascii ''query'') (searchParams (hooks (fire t term w)))
       = map_option USVString (usp_get (ascii ''query'') (commit term (searchParams (hooks w))))"
    by (simp add: hooks_fire usp_at_ascii get_first_converted)
  then have d: "usp_get (ascii ''query'') (searchParams (hooks (fire t term w)))
       = (if term = [] then None else Some (USVString term))"
    by (simp add: a USVString_idem)
  from a b c d show ?thesis
    by (simp add: well_formed_USVString)
qed

theorem commit_query_witness:
  "well_formed (ascii ''lee'')
   \<and> usp_get (ascii ''query'')
       (commit (ascii ''lee'')
          [(ascii ''query'', ascii ''a''), (ascii ''page'', ascii ''4''),
           (ascii ''query'', ascii ''b'')])
     = Some (ascii ''lee'')
   \<and> usp_get (ascii ''query'')
       (commit []
          [(ascii ''query'', ascii ''a''), (ascii ''page'', ascii ''4''),
           (ascii ''query'', ascii ''b'')])
     = None"
proof -
  let ?qs = "[(ascii ''query'', ascii ''a''), (ascii ''page'', ascii ''4''),
           (ascii ''query'', ascii ''b'')]"
  have wf: "well_formed (ascii ''lee'')" by (rule well_formed_ascii)
  have ne: "ascii ''lee'' \<noteq> []" by (simp add: ascii_def)
  have nil: "well_formed []" by simp
  from commit_query [of "ascii ''lee''" ?qs 0 "mount [] []"] wf ne
  have "usp_get (ascii ''query'') (commit (ascii ''lee'') ?qs) = Some (ascii ''lee'')"
    by (simp add: USVString_ascii)
  moreover from commit_query [of "[]" ?qs 0 "mount [] []"]
  have "usp_get (ascii ''query'') (commit [] ?qs) = None"
    by simp
  ultimately show ?thesis using wf by simp
qed

lemma utf8_encode_ascii:
  "\<forall>c \<in> set s. (of_char c :: nat) < 0x80 \<Longrightarrow> utf8_encode (ascii s) = s"
proof (induction s)
  case Nil
  show ?case by (simp add: utf8_encode_def ascii_Nil)
next
  case (Cons c s)
  then have c: "(of_char c :: nat) < 0x80" by simp
  let ?u = "of_nat (of_char c) :: 16 word"
  have "code_points (?u # ascii s) = unat ?u # code_points (ascii s)"
    using ascii_not_surrogate [of c] lead_surrogate [of ?u] by (cases "ascii s") auto
  moreover have "utf8 (of_char c) = [c]"
    using c by (simp add: utf8_def)
  ultimately show ?case
    using Cons by (simp add: utf8_encode_def ascii_Cons unat_of_char)
qed

lemma urlencode_ascii:
  "\<forall>c \<in> set s. (of_char c :: nat) < 0x80 \<Longrightarrow> urlencode (ascii s) = urlencode_bytes s"
  by (simp add: urlencode_def utf8_encode_ascii)

lemma USVString_lone: "USVString [0x61, 0xD800, 0x62] = [0x61, 0xFFFD, 0x62]"
  by (simp add: is_lead_def is_trail_def is_surrogate_def)

lemma char_of_eq: "(of_char c :: nat) = n \<Longrightarrow> char_of n = c"
  by auto

lemma urlencode_replaced: "urlencode [0x61, 0xFFFD, 0x62] = ''a%EF%BF%BDb''"
proof -
  have "code_points [0x61, 0xFFFD, 0x62] = [0x61, 0xFFFD, 0x62]"
    by (simp add: is_lead_def is_trail_def is_surrogate_def)
  moreover have "char_of (0x61 :: nat) = CHR ''a''" "char_of (0x62 :: nat) = CHR ''b''"
    "char_of (0xEF :: nat) = CHR 0xEF" "char_of (0xBF :: nat) = CHR 0xBF"
    "char_of (0xBD :: nat) = CHR 0xBD"
    by (rule char_of_eq, simp)+
  ultimately have "utf8_encode [0x61, 0xFFFD, 0x62]
      = [CHR ''a'', CHR 0xEF, CHR 0xBF, CHR 0xBD, CHR ''b'']"
    by (simp add: utf8_encode_def utf8_def)
  then show ?thesis
    by (simp add: urlencode_def urlencode_bytes_def urlencode_byte_def urlencoded_keep_def
        percent_encode_def hex_digit_def)
qed

theorem commit_query_counterexample:
  "[0x61, 0xD800, 0x62] \<noteq> ([] :: jsstring)
   \<and> usp_get (ascii ''query'') (commit [0x61, 0xD800, 0x62] []) = Some [0x61, 0xFFFD, 0x62]
   \<and> usp_get (ascii ''query'') (commit [0x61, 0xD800, 0x62] []) \<noteq> Some [0x61, 0xD800, 0x62]
   \<and> usp_toString (commit [0x61, 0xD800, 0x62] []) = ''page=1&query=a%EF%BF%BDb''"
proof -
  have c: "commit [0x61, 0xD800, 0x62] []
      = [(ascii ''page'', ascii ''1''), (ascii ''query'', [0x61, 0xFFFD, 0x62])]"
    unfolding commit_eq USVString_lone by (simp add: page_not_query)
  have g: "usp_get (ascii ''query'') (commit [0x61, 0xD800, 0x62] []) = Some [0x61, 0xFFFD, 0x62]"
    by (simp add: c usp_at_ascii page_not_query)
  have d: "[0x61, 0xFFFD, 0x62] \<noteq> ([0x61, 0xD800, 0x62] :: jsstring)"
    by simp
  have "urlencode (ascii ''page'') = ''page''" and "urlencode (ascii ''1'') = ''1''"
    and "urlencode (ascii ''query'') = ''query''"
    by (simp_all add: urlencode_ascii urlencode_bytes_def urlencode_byte_def urlencoded_keep_def)
  then have s: "usp_toString (commit [0x61, 0xD800, 0x62] []) = ''page=1&query=a%EF%BF%BDb''"
    by (simp add: c usp_toString_def urlencode_replaced)
  from g d s show ?thesis by simp
qed

text \<open>
  Claim C2. For every term and every prior query state, whatever \<open>page\<close> was before or
  whether it was there at all, after the commit \<open>page\<close> is \<open>1\<close>, and that is the only
  \<open>page\<close> pair. The same holds of the parameters that the next render reads back from
  the replaced address.
\<close>

theorem commit_page:
  "usp_get (ascii ''page'') (commit term qs) = Some (ascii ''1'')
   \<and> usp_getAll (ascii ''page'') (commit term qs) = [ascii ''1'']
   \<and> usp_get (ascii ''page'') (searchParams (hooks (fire t term w))) = Some (ascii ''1'')"
proof -
  have a: "usp_get (ascii ''page'') (commit term qs) = Some (ascii ''1'')" for qs
    by (simp add: usp_at_ascii commit_eq get_first_set get_first_delete page_not_query)
  have b: "usp_getAll (ascii ''page'') (commit term qs) = [ascii ''1'']"
    by (simp add: usp_at_ascii commit_eq get_every_set get_every_delete page_not_query)
  have "usp_get (ascii ''page'') (searchParams (hooks (fire t term w)))
       = map_option USVString (usp_get (ascii ''page'') (commit term (searchParams (hooks w))))"
    by (simp add: hooks_fire usp_at_ascii get_first_converted)
  then have "usp_get (ascii ''page'') (searchParams (hooks (fire t term w))) = Some (ascii ''1'')"
    by (simp add: a USVString_ascii)
  with a b show ?thesis by simp
qed

theorem commit_page_witness:
  "usp_get (ascii ''page'')
     (commit (ascii ''lee'')
        [(ascii ''page'', ascii ''7''), (ascii ''sort'', ascii ''asc''),
         (ascii ''page'', ascii ''9'')])
     = Some (ascii ''1'')
   \<and> usp_get (ascii ''page'') (commit [] []) = Some (ascii ''1'')"
  using commit_page [of "ascii ''lee''"
      "[(ascii ''page'', ascii ''7''), (ascii ''sort'', ascii ''asc''),
        (ascii ''page'', ascii ''9'')]"]
    commit_page [of "[]" "[]"]
  by blast

lemma usp_other:
  assumes "k \<noteq> ascii ''page''" and "k \<noteq> ascii ''query''"
  shows "USVString k \<noteq> ascii ''page''" and "USVString k \<noteq> ascii ''query''"
  using assms by (simp_all add: USVString_eq_ascii)

text \<open>
  Claim C4. For every term and every prior query state, the commit leaves the parameters
  other than \<open>page\<close> and \<open>query\<close> as they were: the pairs with other names are the same, in
  the same order, so each such name is present after the commit exactly when it was
  before, with the same value.
\<close>

theorem commit_frame:
  "filter (\<lambda>p. fst p \<notin> {ascii ''page'', ascii ''query''}) (commit term qs)
     = filter (\<lambda>p. fst p \<notin> {ascii ''page'', ascii ''query''}) qs
   \<and> (\<forall>k. k \<noteq> ascii ''page'' \<and> k \<noteq> ascii ''query'' \<longrightarrow>
          usp_has k (commit term qs) = usp_has k qs
        \<and> usp_get k (commit term qs) = usp_get k qs
        \<and> usp_getAll k (commit term qs) = usp_getAll k qs)"
proof -
  let ?S = "{ascii ''page'', ascii ''query''}"
  let ?paged = "set_first (ascii ''page'') (ascii ''1'') qs"
  have page: "filter (\<lambda>p. fst p \<notin> ?S) ?paged = filter (\<lambda>p. fst p \<notin> ?S) qs"
    by (rule frame_set) simp
  have set_query: "filter (\<lambda>p. fst p \<notin> ?S) (set_first (ascii ''query'') (USVString term) ?paged)
          = filter (\<lambda>p. fst p \<notin> ?S) ?paged"
    by (rule frame_set) simp
  have delete_query: "filter (\<lambda>p. fst p \<notin> ?S) (remove_all (ascii ''query'') ?paged)
          = filter (\<lambda>p. fst p \<notin> ?S) ?paged"
    by (rule frame_delete) simp
  have pairs: "filter (\<lambda>p. fst p \<notin> ?S) (commit term qs) = filter (\<lambda>p. fst p \<notin> ?S) qs"
  proof (cases "term = []")
    case True
    then have "commit term qs = remove_all (ascii ''query'') ?paged"
      by (simp add: commit_eq)
    with delete_query page show ?thesis by (simp only:)
  next
    case False
    then have "commit term qs = set_first (ascii ''query'') (USVString term) ?paged"
      by (simp add: commit_eq)
    with set_query page show ?thesis by (simp only:)
  qed
  have names: "\<forall>k. k \<noteq> ascii ''page'' \<and> k \<noteq> ascii ''query'' \<longrightarrow>
          usp_has k (commit term qs) = usp_has k qs
        \<and> usp_get k (commit term qs) = usp_get k qs
        \<and> usp_getAll k (commit term qs) = usp_getAll k qs"
    by (simp add: usp_has_def usp_get_def usp_getAll_def commit_eq usp_other
        get_first_set get_first_delete get_every_set get_every_delete has_name_set
        has_name_delete)
  from pairs names show ?thesis by (rule conjI)
qed

theorem commit_frame_witness:
  "ascii ''sort'' \<noteq> ascii ''page'' \<and> ascii ''sort'' \<noteq> ascii ''query''
   \<and> usp_get (ascii ''sort'')
       (commit (ascii ''lee'') [(ascii ''sort'', ascii ''asc''), (ascii ''page'', ascii ''3'')])
     = Some (ascii ''asc'')
   \<and> usp_get (ascii ''sort'')
       (commit [] [(ascii ''query'', ascii ''x''), (ascii ''sort'', ascii ''asc'')])
     = Some (ascii ''asc'')"
proof -
  have ne: "ascii ''sort'' \<noteq> ascii ''page''" "ascii ''sort'' \<noteq> ascii ''query''"
    "ascii ''query'' \<noteq> ascii ''sort''"
    by (simp_all add: ascii_inject)
  have a: "usp_get (ascii ''sort'') [(ascii ''sort'', ascii ''asc''), (ascii ''page'', ascii ''3'')]
      = Some (ascii ''asc'')"
    by (simp add: usp_at_ascii)
  have b: "usp_get (ascii ''sort'') [(ascii ''query'', ascii ''x''), (ascii ''sort'', ascii ''asc'')]
      = Some (ascii ''asc'')"
    by (simp add: usp_at_ascii ne)
  from commit_frame [of "ascii ''lee''" "[(ascii ''sort'', ascii ''asc''), (ascii ''page'', ascii ''3'')]"]
    commit_frame [of "[]" "[(ascii ''query'', ascii ''x''), (ascii ''sort'', ascii ''asc'')]"]
    ne a b
  show ?thesis by metis
qed

text \<open>
  Claim C8. For every term and every prior query state, committing the term a second time
  changes nothing: the commit is idempotent on query states.
\<close>

theorem commit_idempotent: "commit term (commit term qs) = commit term qs"
proof (cases "term = []")
  case True
  have "remove_all (ascii ''query'') (set_first (ascii ''page'') (ascii ''1'')
          (remove_all (ascii ''query'') (set_first (ascii ''page'') (ascii ''1'') qs)))
        = remove_all (ascii ''query'') (set_first (ascii ''page'') (ascii ''1'') qs)"
    by (simp add: remove_all_set_other remove_all_twice set_first_twice page_not_query)
  with True show ?thesis by (simp add: commit_eq)
next
  case False
  let ?once = "set_first (ascii ''query'') (USVString term)
                 (set_first (ascii ''page'') (ascii ''1'') qs)"
  have page: "set_first (ascii ''page'') (ascii ''1'') ?once = ?once"
    by (rule set_first_same) (simp add: get_every_set page_not_query)
  have "set_first (ascii ''query'') (USVString term) ?once = ?once"
    by (rule set_first_same) (simp add: get_every_set)
  with page False show ?thesis by (simp add: commit_eq)
qed

theorem commit_idempotent_witness:
  "commit (ascii ''lee'')
     (commit (ascii ''lee'')
        [(ascii ''query'', ascii ''a''), (ascii ''page'', ascii ''4''),
         (ascii ''query'', ascii ''b'')])
     = [(ascii ''query'', ascii ''lee''), (ascii ''page'', ascii ''1'')]"
proof -
  have ne: "ascii ''lee'' \<noteq> []" by (simp add: ascii_def)
  have "commit (ascii ''lee'')
        [(ascii ''query'', ascii ''a''), (ascii ''page'', ascii ''4''),
         (ascii ''query'', ascii ''b'')]
     = [(ascii ''query'', ascii ''lee''), (ascii ''page'', ascii ''1'')]"
    using ne by (simp add: commit_eq remove_all_simps page_not_query USVString_ascii)
  with commit_idempotent [of "ascii ''lee''"
      "[(ascii ''query'', ascii ''a''), (ascii ''page'', ascii ''4''),
        (ascii ''query'', ascii ''b'')]"]
  show ?thesis by simp
qed

section \<open>The debounce\<close>

text \<open>
  Claim C3. Take a burst of one or more input events, in time order and with less than the
  quiescence window of 300 between consecutive ones, that starts with the timer idle. No
  commit fires while the burst lasts; at any time earlier than 300 after the last event
  there is still none; from 300 after the last event on there is exactly one, fired at
  that moment with the text of the last event, and the timer is idle again.
\<close>

theorem debounce_coalesces:
  assumes "ks \<noteq> []" and "rapid ks" and "timer w = None"
  shows "wait = 300
    \<and> fired (run (typing ks) w) = fired w
    \<and> fired (advance T (run (typing ks) w)) =
        fired w @ (if fst (last ks) + wait \<le> T then [(fst (last ks) + wait, snd (last ks))] else [])
    \<and> (fst (last ks) + wait \<le> T \<longrightarrow> timer (advance T (run (typing ks) w)) = None)"
proof -
  have "run (typing ks) w =
     w\<lparr>displayed := snd (last ks), touched := True,
        timer := Some (fst (last ks) + wait, snd (last ks))\<rparr>"
    using assms by (intro run_typing) simp_all
  then have "fired (run (typing ks) w) = fired w" by simp
  moreover have "fired (advance T (run (typing ks) w)) =
        fired w @ (if fst (last ks) + wait \<le> T then [(fst (last ks) + wait, snd (last ks))] else [])"
    by (simp add: settle_typing [OF assms] fire_fields)
  moreover have "fst (last ks) + wait \<le> T \<longrightarrow> timer (advance T (run (typing ks) w)) = None"
    by (simp add: settle_typing [OF assms] fire_fields)
  ultimately show ?thesis by (simp add: wait_def)
qed

theorem debounce_coalesces_witness:
  "fired (advance 500 (run (typing [(0, ascii ''l''), (100, ascii ''le''), (200, ascii ''lee'')])
      (mount ''/dashboard/invoices'' (ascii ''Search invoices...''))))
     = [(500, ascii ''lee'')]
   \<and> fired (advance 499 (run (typing [(0, ascii ''l''), (100, ascii ''le''), (200, ascii ''lee'')])
      (mount ''/dashboard/invoices'' (ascii ''Search invoices...''))))
     = []"
proof -
  let ?ks = "[(0::nat, ascii ''l''), (100, ascii ''le''), (200, ascii ''lee'')]"
  let ?w = "mount ''/dashboard/invoices'' (ascii ''Search invoices...'')"
  have ne: "?ks \<noteq> []" by simp
  have r: "rapid ?ks" by (simp add: wait_def)
  have idle: "timer ?w = None" by (simp add: mount_def Let_def)
  have f: "fired ?w = []" by (simp add: mount_def Let_def)
  have l: "last ?ks = (200, ascii ''lee'')" by simp
  have a: "fired (advance 500 (run (typing ?ks) ?w)) =
        fired ?w @ (if fst (last ?ks) + wait \<le> 500 then [(fst (last ?ks) + wait, snd (last ?ks))] else [])"
    using debounce_coalesces [OF ne r idle, of 500] by blast
  have b: "fired (advance 499 (run (typing ?ks) ?w)) =
        fired ?w @ (if fst (last ?ks) + wait \<le> 499 then [(fst (last ?ks) + wait, snd (last ?ks))] else [])"
    using debounce_coalesces [OF ne r idle, of 499] by blast
  have "fired (advance 500 (run (typing ?ks) ?w)) = [(500, ascii ''lee'')]"
    unfolding a f l by (simp add: wait_def)
  moreover have "fired (advance 499 (run (typing ?ks) ?w)) = []"
    unfolding b f l by (simp add: wait_def)
  ultimately show ?thesis by (rule conjI)
qed

section \<open>The input's text\<close>

lemma hooks_mount:
  "hooks (mount a ph) =
     \<lparr> searchParams = usp_parse (href_search a), pathname = href_pathname a, placeholder = ph \<rparr>"
  by (simp add: mount_def hooks_def Let_def)

lemma displayed_mount:
  "displayed (mount a ph) =
     (case usp_get (ascii ''query'') (usp_parse (href_search a)) of Some d \<Rightarrow> d | None \<Rightarrow> [])"
  by (simp add: mount_def hooks_def Let_def initial_text_def Search_def)


lemma toString_single:
  "usp_toString [(n, v)] = urlencode n @ ''='' @ urlencode v"
  by (simp add: usp_toString_def)




lemma parse_page_two: "usp_parse ''page=2'' = [(ascii ''page'', ascii ''2'')]"
proof -
  have "usp_toString [(ascii ''page'', ascii ''2'')] = ''page=2''"
    by (simp add: toString_single urlencode_ascii urlencode_bytes_def urlencode_byte_def
        urlencoded_keep_def)
  with usp_parse_toString [of "[(ascii ''page'', ascii ''2'')]"] show ?thesis
    by (simp add: USVString_ascii)
qed

lemma parse_nothing: "usp_parse [] = []"
  by (simp add: usp_parse_def)




text \<open>
  Claim C9. When the address on mount has no \<open>query\<close> parameter, the default value handed
  to the input is undefined and the input shows the empty string.
\<close>

theorem mount_without_query:
  assumes "usp_get (ascii ''query'') (searchParams (hooks (mount a ph))) = None"
  shows "ip_defaultValue (Search (hooks (mount a ph))) = None
    \<and> displayed (mount a ph) = []"
proof -
  from assms have "usp_get (ascii ''query'') (usp_parse (href_search a)) = None"
    by (simp add: hooks_mount)
  then have "displayed (mount a ph) = []"
    by (simp add: displayed_mount)
  with assms show ?thesis
    by (simp add: Search_def)
qed

theorem mount_without_query_witness:
  "usp_get (ascii ''query'')
     (searchParams (hooks (mount ''/dashboard/invoices?page=2'' (ascii ''Search invoices...''))))
     = None
   \<and> displayed (mount ''/dashboard/invoices?page=2'' (ascii ''Search invoices...'')) = []"
proof -
  let ?w = "mount ''/dashboard/invoices?page=2'' (ascii ''Search invoices...'')"
  have s: "href_search ''/dashboard/invoices?page=2'' = ''page=2''"
    by (simp add: href_search_def)
  have q: "usp_get (ascii ''query'') (searchParams (hooks ?w)) = None"
    by (simp add: hooks_mount s parse_page_two usp_at_ascii page_not_query)
  from mount_without_query [OF q] q show ?thesis
    by simp
qed

section \<open>The call to the router\<close>

lemma href_pathname_clean:
  "CHR ''?'' \<notin> set p \<Longrightarrow> CHR ''#'' \<notin> set p \<Longrightarrow> href_pathname (p @ CHR ''?'' # q) = p"
proof -
  assume "CHR ''?'' \<notin> set p" and "CHR ''#'' \<notin> set p"
  then have "\<forall>x \<in> set p. x \<noteq> CHR ''?'' \<and> x \<noteq> CHR ''#''" by auto
  then show ?thesis
    by (simp add: href_pathname_def takeWhile_tail)
qed

lemma toString_page_query:
  "usp_toString [(ascii ''page'', ascii ''1''), (ascii ''query'', ascii ''lee'')]
     = ''page=1&query=lee''"
  by (simp add: usp_toString_def urlencode_ascii urlencode_bytes_def urlencode_byte_def
      urlencoded_keep_def)

lemma toString_page: "usp_toString [(ascii ''page'', ascii ''1'')] = ''page=1''"
  by (simp add: usp_toString_def urlencode_ascii urlencode_bytes_def urlencode_byte_def
      urlencoded_keep_def)

lemma lee_not_empty: "ascii ''lee'' \<noteq> []"
  by (simp add: ascii_def)

lemma commit_lee:
  "commit (ascii ''lee'') [] = [(ascii ''page'', ascii ''1''), (ascii ''query'', ascii ''lee'')]"
  by (simp add: commit_eq lee_not_empty USVString_ascii page_not_query)

lemma commit_clear:
  "commit [] [(ascii ''page'', ascii ''1''), (ascii ''query'', ascii ''lee'')]
     = [(ascii ''page'', ascii ''1'')]"
  by (simp add: commit_eq remove_all_simps page_not_query)

text \<open>
  Claim C7. The only call a commit makes to the router is \<open>replace\<close>, never \<open>push\<close>, on the
  address made of the current path, \<open>?\<close> and the serialized new parameters. The path of
  that address is the current path, and the history entries behind the current one stay
  as they were.
\<close>

theorem commit_replaces:
  "router_calls (handleSearch r term)
     = [Replace (pathname r @ ''?'' @ usp_toString (commit term (searchParams r)))]
   \<and> (CHR ''?'' \<notin> set (pathname r) \<and> CHR ''#'' \<notin> set (pathname r) \<longrightarrow>
        href_pathname (pathname r @ ''?'' @ usp_toString (commit term (searchParams r)))
          = pathname r)
   \<and> current (fire t term w)
        = pathname (hooks w) @ ''?'' @ usp_toString (commit term (searchParams (hooks w)))
   \<and> pathname (hooks (fire t term w)) = pathname (hooks w)
   \<and> past (fire t term w) = past w"
  by (simp add: handleSearch_def href_pathname_clean hooks_fire fire_fields)

theorem commit_replaces_witness:
  "CHR ''?'' \<notin> set ''/dashboard/invoices'' \<and> CHR ''#'' \<notin> set ''/dashboard/invoices''
   \<and> router_calls (handleSearch
         \<lparr> searchParams = [(ascii ''page'', ascii ''3'')], pathname = ''/dashboard/invoices'',
           placeholder = ascii ''Search invoices...'' \<rparr> (ascii ''lee''))
       = [Replace ''/dashboard/invoices?page=1&query=lee'']
   \<and> href_pathname ''/dashboard/invoices?page=1&query=lee'' = ''/dashboard/invoices''"
proof -
  let ?r = "\<lparr> searchParams = [(ascii ''page'', ascii ''3'')], pathname = ''/dashboard/invoices'',
           placeholder = ascii ''Search invoices...'' \<rparr>"
  have c: "commit (ascii ''lee'') [(ascii ''page'', ascii ''3'')]
      = [(ascii ''page'', ascii ''1''), (ascii ''query'', ascii ''lee'')]"
    by (simp add: commit_eq remove_all_simps lee_not_empty USVString_ascii page_not_query)
  have clean: "CHR ''?'' \<notin> set ''/dashboard/invoices'' \<and> CHR ''#'' \<notin> set ''/dashboard/invoices''"
    by simp
  show ?thesis
    using commit_replaces [of ?r "ascii ''lee''" 0 "mount [] []"] clean
    by (simp add: c toString_page_query)
qed

text \<open>
  Claim C10. The effects of the callback, and with them the address given to \<open>replace\<close>,
  are a function of the term, the current parameters and the current path: two renders
  that agree on these give the same effects whatever their placeholders are, and two
  environments that agree on them end at the same address with the same parameters,
  whatever their times, history, console, timers and displayed texts are.
\<close>

theorem handleSearch_deterministic:
  assumes "searchParams r1 = searchParams r2" and "pathname r1 = pathname r2"
  shows "handleSearch r1 term = handleSearch r2 term
    \<and> (searchParams (hooks w1) = searchParams (hooks w2) \<and> pathname (hooks w1) = pathname (hooks w2)
        \<longrightarrow> current (fire t1 term w1) = current (fire t2 term w2)
          \<and> searchParams (hooks (fire t1 term w1)) = searchParams (hooks (fire t2 term w2)))"
  using assms by (simp add: handleSearch_def hooks_fire fire_fields)

theorem handleSearch_deterministic_witness:
  "handleSearch \<lparr> searchParams = [(ascii ''page'', ascii ''3'')], pathname = ''/dashboard/invoices'',
                  placeholder = ascii ''Search invoices...'' \<rparr> (ascii ''lee'')
     = handleSearch \<lparr> searchParams = [(ascii ''page'', ascii ''3'')], pathname = ''/dashboard/invoices'',
                      placeholder = ascii ''Find a customer'' \<rparr> (ascii ''lee'')
   \<and> current (fire 300 (ascii ''lee'')
        (mount ''/dashboard/invoices?page=3'' (ascii ''Search invoices...'')))
     = current (fire 9000 (ascii ''lee'')
         ((mount ''/dashboard/invoices?page=3'' (ascii ''Find a customer''))
            \<lparr>past := [''/dashboard''], displayed := ascii ''le'', console := [ascii ''hello'']\<rparr>))"
proof -
  let ?r1 = "\<lparr> searchParams = [(ascii ''page'', ascii ''3'')], pathname = ''/dashboard/invoices'',
                  placeholder = ascii ''Search invoices...'' \<rparr>"
  let ?r2 = "\<lparr> searchParams = [(ascii ''page'', ascii ''3'')], pathname = ''/dashboard/invoices'',
                  placeholder = ascii ''Find a customer'' \<rparr>"
  let ?w1 = "mount ''/dashboard/invoices?page=3'' (ascii ''Search invoices...'')"
  let ?w2 = "(mount ''/dashboard/invoices?page=3'' (ascii ''Find a customer''))
            \<lparr>past := [''/dashboard''], displayed := ascii ''le'', console := [ascii ''hello'']\<rparr>"
  have sp: "searchParams (hooks ?w1) = searchParams (hooks ?w2)"
    by (simp add: hooks_def mount_def Let_def)
  have pn: "pathname (hooks ?w1) = pathname (hooks ?w2)"
    by (simp add: hooks_def mount_def Let_def)
  have "searchParams ?r1 = searchParams ?r2" and "pathname ?r1 = pathname ?r2"
    by simp_all
  from handleSearch_deterministic [OF this, of "ascii ''lee''" ?w1 ?w2 300 9000] sp pn
  show ?thesis by blast
qed

section \<open>From typing to the address\<close>

text \<open>
  Claim C6. Start with no query parameters and the timer idle. After a burst of typing
  that ends with \<open>lee\<close> and a pause of at least the quiescence window, the parameters are
  \<open>page = 1\<close>, \<open>query = lee\<close>, in this order. After a second burst that ends with the empty
  text and another such pause, the parameters are \<open>page = 1\<close> alone.
\<close>

theorem end_to_end:
  assumes empty: "searchParams (hooks w) = []" and idle: "timer w = None"
    and ks1: "ks1 \<noteq> []" "rapid ks1" and lee: "snd (last ks1) = ascii ''lee''"
    and T1: "fst (last ks1) + wait \<le> T1"
    and ks2: "ks2 \<noteq> []" "rapid ks2" and clear: "snd (last ks2) = []"
    and T2: "fst (last ks2) + wait \<le> T2"
  shows "searchParams (hooks (advance T1 (run (typing ks1) w)))
           = [(ascii ''page'', ascii ''1''), (ascii ''query'', ascii ''lee'')]
    \<and> current (advance T1 (run (typing ks1) w)) = pathname (hooks w) @ ''?page=1&query=lee''
    \<and> searchParams (hooks (advance T2 (run (typing ks2) (advance T1 (run (typing ks1) w)))))
           = [(ascii ''page'', ascii ''1'')]
    \<and> current (advance T2 (run (typing ks2) (advance T1 (run (typing ks1) w))))
           = pathname (hooks w) @ ''?page=1''"
proof -
  let ?w1 = "advance T1 (run (typing ks1) w)"
  let ?w2 = "advance T2 (run (typing ks2) ?w1)"
  let ?v1 = "w\<lparr>displayed := ascii ''lee'', touched := True,
                timer := Some (fst (last ks1) + wait, ascii ''lee'')\<rparr>"
  let ?v2 = "?w1\<lparr>displayed := [], touched := True,
                timer := Some (fst (last ks2) + wait, [])\<rparr>"
  have w1: "?w1 = fire (fst (last ks1) + wait) (ascii ''lee'') ?v1"
    using settle_typing [OF ks1 idle, of T1] T1 lee by simp
  have q1: "searchParams (hooks ?w1) = [(ascii ''page'', ascii ''1''), (ascii ''query'', ascii ''lee'')]"
    by (simp only: w1 hooks_fire hooks_typed empty commit_lee) (simp add: USVString_ascii)
  have p1: "pathname (hooks ?w1) = pathname (hooks w)"
    by (simp only: w1 hooks_fire hooks_typed)
  have c1: "current ?w1 = pathname (hooks w) @ ''?page=1&query=lee''"
    by (simp only: w1 fire_fields hooks_typed empty commit_lee toString_page_query) simp
  have idle1: "timer ?w1 = None"
    by (simp only: w1 fire_fields)
  have w2: "?w2 = fire (fst (last ks2) + wait) [] ?v2"
    using settle_typing [OF ks2 idle1, of T2] T2 clear by simp
  have q2: "searchParams (hooks ?w2) = [(ascii ''page'', ascii ''1'')]"
    by (simp only: w2 hooks_fire hooks_typed q1 commit_clear) (simp add: USVString_ascii)
  have c2: "current ?w2 = pathname (hooks w) @ ''?page=1''"
    by (simp only: w2 fire_fields hooks_typed q1 p1 commit_clear toString_page) simp
  from q1 c1 q2 c2 show ?thesis by simp
qed

theorem end_to_end_witness:
  "searchParams (hooks (advance 540
      (run (typing [(0, ascii ''l''), (120, ascii ''le''), (240, ascii ''lee'')])
      (mount ''/dashboard/invoices'' (ascii ''Search invoices...'')))))
     = [(ascii ''page'', ascii ''1''), (ascii ''query'', ascii ''lee'')]
   \<and> searchParams (hooks (advance 1500
      (run (typing [(1000, ascii ''le''), (1100, ascii ''l''), (1200, [])])
      (advance 540 (run (typing [(0, ascii ''l''), (120, ascii ''le''), (240, ascii ''lee'')])
        (mount ''/dashboard/invoices'' (ascii ''Search invoices...'')))))))
     = [(ascii ''page'', ascii ''1'')]"
proof -
  let ?w = "mount ''/dashboard/invoices'' (ascii ''Search invoices...'')"
  let ?ks1 = "[(0::nat, ascii ''l''), (120, ascii ''le''), (240, ascii ''lee'')]"
  let ?ks2 = "[(1000::nat, ascii ''le''), (1100, ascii ''l''), (1200, [])]"
  have "href_search ''/dashboard/invoices'' = []"
    by (simp add: href_search_def)
  then have empty: "searchParams (hooks ?w) = []"
    by (simp add: hooks_mount parse_nothing)
  have idle: "timer ?w = None" by (simp add: mount_def Let_def)
  have ks1: "?ks1 \<noteq> []" "rapid ?ks1" by (simp_all add: wait_def)
  have ks2: "?ks2 \<noteq> []" "rapid ?ks2" by (simp_all add: wait_def)
  have lee: "snd (last ?ks1) = ascii ''lee''" by simp
  have clear: "snd (last ?ks2) = []" by simp
  have T1: "fst (last ?ks1) + wait \<le> 540" by (simp add: wait_def)
  have T2: "fst (last ?ks2) + wait \<le> 1500" by (simp add: wait_def)
  from end_to_end [OF empty idle ks1 lee T1 ks2 clear T2]
  show ?thesis by blast
qed

end
